theory Spec2Isabelle
  imports Complex_Main "HOL-Library.Word"
begin

section \<open>Strings of the source language\<close>

text \<open>
  A JavaScript string is a sequence of 16-bit code units; \<open>length\<close> counts code units
  and a regular expression without the \<open>u\<close> flag matches code unit by code unit.
\<close>

type_synonym code_unit = "16 word"
type_synonym js_string = "code_unit list"

section \<open>\<open>src/utils/security.ts\<close>: constants and the error type\<close>

definition MAX_SYMBOL_LENGTH :: nat where
  "MAX_SYMBOL_LENGTH = 20"

definition MIN_SYMBOL_LENGTH :: nat where
  "MIN_SYMBOL_LENGTH = 1"

definition MAX_SYMBOLS_PER_REQUEST :: nat where
  "MAX_SYMBOLS_PER_REQUEST = 50"

text \<open>
  \<open>SecurityError\<close> carries a message and a code; the code determines which check threw,
  so the model keeps the code. Only the codes thrown by the functions modelled here are
  listed (the \<open>INVALID_TYPE\<close> throws guard against arguments that the parameter types
  \<open>string\<close> and \<open>string[]\<close> exclude).
\<close>

datatype SecurityError =
    INVALID_LENGTH
  | INVALID_CHARS
  | EMPTY_ARRAY
  | TOO_MANY_SYMBOLS
  | DUPLICATE_SYMBOLS

text \<open>The character class \<open>[A-Z0-9\.\-\^]\<close>.\<close>

definition symbol_char :: "code_unit \<Rightarrow> bool" where
  "symbol_char c \<longleftrightarrow>
     (0x41 \<le> c \<and> c \<le> 0x5A) \<or> (0x30 \<le> c \<and> c \<le> 0x39) \<or> c = 0x2E \<or> c = 0x2D \<or> c = 0x5E"

text \<open>
  \<open>ALLOWED_SYMBOL_CHARS.test(s)\<close> for \<open>/^[A-Z0-9\.\-\^]+$/\<close>: the expression has no
  flags, so \<open>^\<close> and \<open>$\<close> match only at the two ends of the input and \<open>test\<close> keeps no
  state between calls. It holds when the string is non-empty and every code unit is in
  the class.
\<close>

definition ALLOWED_SYMBOL_CHARS_test :: "js_string \<Rightarrow> bool" where
  "ALLOWED_SYMBOL_CHARS_test s \<longleftrightarrow> s \<noteq> [] \<and> list_all symbol_char s"

definition validateSymbol :: "js_string \<Rightarrow> SecurityError + unit" where
  "validateSymbol symbol =
     (if length symbol < MIN_SYMBOL_LENGTH \<or> length symbol > MAX_SYMBOL_LENGTH
      then Inl INVALID_LENGTH
      else if \<not> ALLOWED_SYMBOL_CHARS_test symbol then Inl INVALID_CHARS
      else Inr ())"

text \<open>The loop \<open>for (const symbol of symbols) this.validateSymbol(symbol)\<close>: the first
  throw leaves the loop.\<close>

fun validateEach :: "js_string list \<Rightarrow> SecurityError + unit" where
  "validateEach [] = Inr ()"
| "validateEach (symbol # rest) =
     (case validateSymbol symbol of Inl e \<Rightarrow> Inl e | Inr _ \<Rightarrow> validateEach rest)"

text \<open>\<open>new Set(symbols).size\<close> is the number of distinct strings of the array.\<close>

definition validateSymbols :: "js_string list \<Rightarrow> SecurityError + unit" where
  "validateSymbols symbols =
     (if length symbols = 0 then Inl EMPTY_ARRAY
      else if length symbols > MAX_SYMBOLS_PER_REQUEST then Inl TOO_MANY_SYMBOLS
      else if card (set symbols) \<noteq> length symbols then Inl DUPLICATE_SYMBOLS
      else validateEach symbols)"

text \<open>
  \<open>sanitizeString\<close>: the two global replacements delete every occurrence of the class,
  and \<open>trim\<close> removes the white space and line terminators of ECMAScript at both ends:
  U+0009, U+000B, U+000C, U+0020, U+00A0, U+FEFF and the space separators U+1680,
  U+2000 to U+200A, U+202F, U+205F, U+3000; the line terminators U+000A, U+000D, U+2028,
  U+2029.
\<close>

definition strip_angle :: "js_string \<Rightarrow> js_string" where
  "strip_angle s = filter (\<lambda>c. c \<noteq> 0x3C \<and> c \<noteq> 0x3E) s"

definition control_char :: "code_unit \<Rightarrow> bool" where
  "control_char c \<longleftrightarrow> c \<le> 0x1F \<or> c = 0x7F"

definition strip_control :: "js_string \<Rightarrow> js_string" where
  "strip_control s = filter (\<lambda>c. \<not> control_char c) s"

definition white_space :: "code_unit \<Rightarrow> bool" where
  "white_space c \<longleftrightarrow>
     c \<in> {0x0009, 0x000A, 0x000B, 0x000C, 0x000D, 0x0020, 0x00A0, 0x1680,
          0x2028, 0x2029, 0x202F, 0x205F, 0x3000, 0xFEFF}
     \<or> (0x2000 \<le> c \<and> c \<le> 0x200A)"

definition trim :: "js_string \<Rightarrow> js_string" where
  "trim s = rev (dropWhile white_space (rev (dropWhile white_space s)))"

definition sanitizeString :: "js_string \<Rightarrow> js_string" where
  "sanitizeString input = trim (strip_control (strip_angle input))"

section \<open>The security middleware: \<open>checkRateLimit\<close>\<close>

text \<open>
  \<open>requestCounts\<close> is a \<open>Map\<close> from identifier to a mutable record. Numbers of the
  source are modelled as reals; the stored count only ever holds \<open>1\<close> or a successor of
  a stored count, so it is an integer. The method is \<open>async\<close> but awaits nothing: its
  body runs to completion, so a call is one step on the map. \<open>now\<close> stands for the
  value \<open>Date.now()\<close> returns at the call.
\<close>

record rate_record =
  count :: int
  resetTime :: real

type_synonym requestCounts = "js_string \<rightharpoonup> rate_record"

definition checkRateLimit ::
  "requestCounts \<Rightarrow> real \<Rightarrow> js_string \<Rightarrow> real \<Rightarrow> real \<Rightarrow> bool \<times> requestCounts" where
  "checkRateLimit requestCounts now identifier maxRequests windowMs =
     (case requestCounts identifier of
        None \<Rightarrow>
          (True, requestCounts(identifier \<mapsto> \<lparr>count = 1, resetTime = now + windowMs\<rparr>))
      | Some record \<Rightarrow>
          if now > resetTime record
          then (True, requestCounts(identifier \<mapsto> \<lparr>count = 1, resetTime = now + windowMs\<rparr>))
          else if real_of_int (count record) \<ge> maxRequests then (False, requestCounts)
          else (True, requestCounts(identifier \<mapsto> record\<lparr>count := count record + 1\<rparr>)))"

text \<open>A sequence of calls for one identifier with fixed parameters, at the given clock
  readings: the results in order, and the map after the last call.\<close>

fun checkRateLimit_calls ::
  "requestCounts \<Rightarrow> js_string \<Rightarrow> real \<Rightarrow> real \<Rightarrow> real list \<Rightarrow> bool list \<times> requestCounts" where
  "checkRateLimit_calls requestCounts identifier maxRequests windowMs [] = ([], requestCounts)"
| "checkRateLimit_calls requestCounts identifier maxRequests windowMs (now # later) =
     (case checkRateLimit requestCounts now identifier maxRequests windowMs of
        (granted, requestCounts') \<Rightarrow>
          (case checkRateLimit_calls requestCounts' identifier maxRequests windowMs later of
             (results, requestCounts'') \<Rightarrow> (granted # results, requestCounts'')))"

text \<open>The stored count of an identifier is within the limit (no record: nothing stored).\<close>

definition count_within :: "requestCounts \<Rightarrow> js_string \<Rightarrow> real \<Rightarrow> bool" where
  "count_within requestCounts identifier maxRequests =
     (case requestCounts identifier of
        None \<Rightarrow> True
      | Some record \<Rightarrow> real_of_int (count record) \<le> maxRequests)"

text \<open>A call at \<open>now\<close> opens a window: there is no record, or the stored one has expired.\<close>

definition opens_window :: "requestCounts \<Rightarrow> js_string \<Rightarrow> real \<Rightarrow> bool" where
  "opens_window requestCounts identifier now =
     (case requestCounts identifier of
        None \<Rightarrow> True
      | Some record \<Rightarrow> now > resetTime record)"

section \<open>The cache layer\<close>

text \<open>
  The architecture notes name \<open>src/middleware/cache.ts\<close>, but the file is not part of
  the sources; the definitions of this section follow section 4.5 and the data model of
  the specification. Time stamps are integral milliseconds. The store keeps its entries
  in insertion order, one entry per key.
\<close>

text \<open>Modelled from the spec: the configured eviction policy (\<open>cacheStrategy\<close>) of the
  missing cache layer.\<close>

datatype CacheStrategy = LRU | LFU | FIFO

text \<open>Modelled from the spec: \<open>CacheEntry\<close> of the missing cache layer, with the access
  counter that every successful \<open>get\<close> increments. The field \<open>value\<close> is named \<open>val\<close>;
  \<open>sizeHint\<close> takes no part in \<open>get\<close>, \<open>set\<close> or eviction and is left out.\<close>

record 'v CacheEntry =
  key :: string
  val :: 'v
  insertedAt :: int
  expiresAt :: int
  lastAccessedAt :: int
  accessCount :: nat

type_synonym 'v CacheStore = "'v CacheEntry list"

text \<open>Modelled from the spec: the entry stored under a key, if any (missing cache layer).\<close>

definition lookup :: "'v CacheStore \<Rightarrow> string \<Rightarrow> 'v CacheEntry option" where
  "lookup store k = find (\<lambda>e. key e = k) store"

text \<open>Modelled from the spec: removal of a key's entry (missing cache layer).\<close>

definition remove_key :: "'v CacheStore \<Rightarrow> string \<Rightarrow> 'v CacheStore" where
  "remove_key store k = filter (\<lambda>e. key e \<noteq> k) store"

text \<open>Modelled from the spec: the entry with the least measure, the earliest stored
  among equals (missing cache layer: "oldest", "lowest").\<close>

fun oldest_by :: "('e \<Rightarrow> 'a::linorder) \<Rightarrow> 'e \<Rightarrow> 'e list \<Rightarrow> 'e" where
  "oldest_by f best [] = best"
| "oldest_by f best (e # es) = oldest_by f (if f e < f best then e else best) es"

text \<open>Modelled from the spec: the entry the policy evicts (missing cache layer): LRU the
  oldest \<open>lastAccessedAt\<close>, LFU the lowest access count, FIFO the oldest \<open>insertedAt\<close>.\<close>

definition victim :: "CacheStrategy \<Rightarrow> 'v CacheStore \<Rightarrow> 'v CacheEntry option" where
  "victim strategy store =
     (case store of
        [] \<Rightarrow> None
      | e # es \<Rightarrow>
          Some (case strategy of
                  LRU \<Rightarrow> oldest_by lastAccessedAt e es
                | LFU \<Rightarrow> oldest_by accessCount e es
                | FIFO \<Rightarrow> oldest_by insertedAt e es))"

text \<open>Modelled from the spec: eviction by the configured policy (missing cache layer).\<close>

definition evict :: "CacheStrategy \<Rightarrow> 'v CacheStore \<Rightarrow> 'v CacheStore" where
  "evict strategy store =
     (case victim strategy store of
        None \<Rightarrow> store
      | Some v \<Rightarrow> remove_key store (key v))"

text \<open>Modelled from the spec: the entry a write creates (missing cache layer).\<close>

definition new_entry :: "int \<Rightarrow> string \<Rightarrow> 'v \<Rightarrow> int \<Rightarrow> 'v CacheEntry" where
  "new_entry now k v ttlMs =
     \<lparr>key = k, val = v, insertedAt = now, expiresAt = now + ttlMs,
      lastAccessedAt = now, accessCount = 0\<rparr>"

text \<open>Modelled from the spec: the eviction before an insertion of the missing cache
  layer: when the write of a new key would exceed the capacity, one entry is evicted by
  the policy.\<close>

definition make_room :: "nat \<Rightarrow> CacheStrategy \<Rightarrow> 'v CacheStore \<Rightarrow> 'v CacheStore" where
  "make_room maxCacheSize strategy store =
     (if length store \<ge> maxCacheSize then evict strategy store else store)"

text \<open>Modelled from the spec: \<open>set(key, value, ttlMs)\<close> of the missing cache layer. A
  write to a stored key refreshes its entry; a write of a new key evicts first when it
  would exceed the capacity, and inserts into the room made. The capacity bounds the
  store: where the eviction leaves no room (a capacity of zero entries) nothing is
  inserted.\<close>

definition cache_set ::
  "nat \<Rightarrow> CacheStrategy \<Rightarrow> int \<Rightarrow> string \<Rightarrow> 'v \<Rightarrow> int \<Rightarrow> 'v CacheStore \<Rightarrow> 'v CacheStore" where
  "cache_set maxCacheSize strategy now k v ttlMs store =
     (if lookup store k \<noteq> None
      then map (\<lambda>e. if key e = k then new_entry now k v ttlMs else e) store
      else if length (make_room maxCacheSize strategy store) < maxCacheSize
      then make_room maxCacheSize strategy store @ [new_entry now k v ttlMs]
      else make_room maxCacheSize strategy store)"

text \<open>Modelled from the spec: \<open>get(key)\<close> of the missing cache layer. An entry read
  after \<open>expiresAt\<close> is a miss and is removed; a hit updates \<open>lastAccessedAt\<close> and the
  access counter.\<close>

definition cache_get :: "int \<Rightarrow> string \<Rightarrow> 'v CacheStore \<Rightarrow> 'v option \<times> 'v CacheStore" where
  "cache_get now k store =
     (case lookup store k of
        None \<Rightarrow> (None, store)
      | Some e \<Rightarrow>
          if now > expiresAt e then (None, remove_key store k)
          else (Some (val e),
                map (\<lambda>e'. if key e' = k
                           then e'\<lparr>lastAccessedAt := now, accessCount := accessCount e' + 1\<rparr>
                           else e') store))"

text \<open>Modelled from the spec: \<open>invalidate(key)\<close> of the missing cache layer.\<close>

definition invalidate :: "string \<Rightarrow> 'v CacheStore \<Rightarrow> 'v CacheStore" where
  "invalidate k store = remove_key store k"

text \<open>Modelled from the spec: the three operations of the contract of the missing cache
  layer, each with the clock reading of its call.\<close>

datatype 'v CacheOp = Get int string | Set int string 'v int | Invalidate string

text \<open>Modelled from the spec: one operation on the store (missing cache layer).\<close>

fun apply_op :: "nat \<Rightarrow> CacheStrategy \<Rightarrow> 'v CacheStore \<Rightarrow> 'v CacheOp \<Rightarrow> 'v CacheStore" where
  "apply_op maxCacheSize strategy store (Get now k) = snd (cache_get now k store)"
| "apply_op maxCacheSize strategy store (Set now k v ttlMs) =
     cache_set maxCacheSize strategy now k v ttlMs store"
| "apply_op maxCacheSize strategy store (Invalidate k) = invalidate k store"

text \<open>Modelled from the spec: a sequence of operations, in order (missing cache layer).\<close>

definition apply_ops ::
  "nat \<Rightarrow> CacheStrategy \<Rightarrow> 'v CacheStore \<Rightarrow> 'v CacheOp list \<Rightarrow> 'v CacheStore" where
  "apply_ops maxCacheSize strategy store ops = foldl (apply_op maxCacheSize strategy) store ops"

text \<open>A write as data: clock reading, key, value and time to live.\<close>

type_synonym 'v CacheWrite = "int \<times> string \<times> 'v \<times> int"

fun write_time :: "'v CacheWrite \<Rightarrow> int" where
  "write_time (now, k, v, ttlMs) = now"

fun write_key :: "'v CacheWrite \<Rightarrow> string" where
  "write_key (now, k, v, ttlMs) = k"

fun write_op :: "'v CacheWrite \<Rightarrow> 'v CacheOp" where
  "write_op (now, k, v, ttlMs) = Set now k v ttlMs"

fun written_entry :: "'v CacheWrite \<Rightarrow> 'v CacheEntry" where
  "written_entry (now, k, v, ttlMs) = new_entry now k v ttlMs"

text \<open>Three writes of distinct keys, and a full store of capacity two.\<close>

definition threeWrites :: "nat CacheWrite list" where
  "threeWrites = [(1, ''AAPL'', 0, 60000), (2, ''MSFT'', 0, 60000), (3, ''GOOG'', 0, 60000)]"

definition twoEntries :: "nat CacheStore" where
  "twoEntries = [new_entry 1 ''AAPL'' 0 60000, new_entry 2 ''MSFT'' 0 60000]"

section \<open>The data quality reporter\<close>

text \<open>
  The architecture notes name \<open>src/utils/data-quality.ts\<close>, but the file is not part of
  the sources; the definitions of this section follow section 4.6 of the specification.
  Weights and quotients are real numbers.
\<close>

text \<open>Modelled from the spec: the three classes of expected fields of the missing
  reporter.\<close>

datatype FieldTier = critical | important | standard

text \<open>Modelled from the spec: the weights 2.0, 1.5 and 1.0 of the missing reporter.\<close>

fun weight :: "FieldTier \<Rightarrow> real" where
  "weight critical = 2"
| "weight important = 3 / 2"
| "weight standard = 1"

type_synonym 'v payload = "string \<rightharpoonup> 'v"
type_synonym schemaHints = "(string \<times> FieldTier) list"

text \<open>Modelled from the spec: a field is present when the payload holds it (missing
  reporter).\<close>

definition present :: "'v payload \<Rightarrow> string \<Rightarrow> bool" where
  "present payload field \<longleftrightarrow> payload field \<noteq> None"

text \<open>Modelled from the spec: the sum of the weights of all expected fields (missing
  reporter).\<close>

definition totalWeight :: "schemaHints \<Rightarrow> real" where
  "totalWeight hints = sum_list (map (\<lambda>(field, tier). weight tier) hints)"

text \<open>Modelled from the spec: the sum of the weights of the present expected fields
  (missing reporter).\<close>

definition presentWeight :: "schemaHints \<Rightarrow> 'v payload \<Rightarrow> real" where
  "presentWeight hints payload =
     sum_list (map (\<lambda>(field, tier). if present payload field then weight tier else 0) hints)"

text \<open>Modelled from the spec: the weighted share of the present fields of the missing
  reporter, in per cent, before rounding. The spec's words do not consider a set of
  expected fields of total weight zero; there the quotient is 0, as division by zero is
  in HOL.\<close>

definition completenessPercent :: "schemaHints \<Rightarrow> 'v payload \<Rightarrow> real" where
  "completenessPercent hints payload = presentWeight hints payload / totalWeight hints * 100"

text \<open>Modelled from the spec: the completeness score of the missing reporter as section
  4.6 words it, the share rounded to the nearest integer (halves upwards, as
  \<open>Math.round\<close>) and clamped to 0..100.\<close>

definition completenessScore :: "schemaHints \<Rightarrow> 'v payload \<Rightarrow> int" where
  "completenessScore hints payload = max 0 (min 100 (round (completenessPercent hints payload)))"

text \<open>Modelled from the spec: the completeness score of the missing reporter as the
  example of section 8 computes it, the share rounded down and clamped to 0..100.\<close>

definition completenessScoreFloor :: "schemaHints \<Rightarrow> 'v payload \<Rightarrow> int" where
  "completenessScoreFloor hints payload =
     max 0 (min 100 (floor (completenessPercent hints payload)))"

text \<open>Modelled from the spec: the source reliability classes of the missing reporter.\<close>

datatype Reliability = High | Medium | Low

text \<open>Modelled from the spec: the classification of the missing reporter from the score,
  the number of missing fields and whether an integrity issue of high severity was
  found.\<close>

definition sourceReliability :: "int \<Rightarrow> nat \<Rightarrow> bool \<Rightarrow> Reliability" where
  "sourceReliability score missingFields highSeverityIssue =
     (if score \<ge> 90 \<and> \<not> highSeverityIssue then High
      else if score \<ge> 70 \<and> missingFields \<le> 2 \<and> \<not> highSeverityIssue then Medium
      else Low)"

text \<open>Modelled from the spec: the number of expected fields the payload lacks (missing
  reporter).\<close>

definition missingFields :: "schemaHints \<Rightarrow> 'v payload \<Rightarrow> nat" where
  "missingFields hints payload = length (filter (\<lambda>(field, tier). \<not> present payload field) hints)"

text \<open>Four expected fields of total weight 5.5, and a payload that lacks the critical
  one.\<close>

definition quoteHints :: schemaHints where
  "quoteHints = [(''price'', critical), (''volume'', important), (''open'', standard), (''previousClose'', standard)]"

definition quoteWithoutPrice :: "int payload" where
  "quoteWithoutPrice = [''volume'' \<mapsto> 1000, ''open'' \<mapsto> 10, ''previousClose'' \<mapsto> 9]"

section \<open>The retry executor\<close>

text \<open>
  The architecture notes name \<open>src/middleware/retry.ts\<close>, but the file is not part of the
  sources; the definition follows section 4.4 of the specification (the notes give the
  same expression). Delays are real numbers of milliseconds.
\<close>

text \<open>Modelled from the spec: the delay before attempt \<open>n\<close> (counted from 1) of the
  missing retry executor, \<open>min(baseDelay * 2^(n-1) * (1 + random(0, jitterFactor)),
  maxDelay)\<close>; the argument \<open>jitter\<close> is the number the draw \<open>random(0, jitterFactor)\<close>
  returned.\<close>

definition retryDelay :: "real \<Rightarrow> real \<Rightarrow> nat \<Rightarrow> real \<Rightarrow> real" where
  "retryDelay baseDelay maxDelay n jitter =
     min (baseDelay * 2 ^ (n - 1) * (1 + jitter)) maxDelay"

section \<open>Properties of the input validator\<close>

lemma validateEach_Inl:
  "(\<exists>e. validateEach symbols = Inl e) \<longleftrightarrow> (\<exists>s\<in>set symbols. \<exists>e. validateSymbol s = Inl e)"
  by (induction symbols) (auto split: sum.splits)

lemma validateSymbol_Inl:
  "(\<exists>e. validateSymbol s = Inl e) \<longleftrightarrow>
     (length s < 1 \<or> 20 < length s \<or> (\<exists>c\<in>set s. c \<notin> {0x41..0x5A} \<union> {0x30..0x39} \<union> {0x2E, 0x2D, 0x5E}))"
  by (auto simp: validateSymbol_def ALLOWED_SYMBOL_CHARS_test_def symbol_char_def
      MIN_SYMBOL_LENGTH_def MAX_SYMBOL_LENGTH_def list_all_iff)

text \<open>
  Claim C8. For every array of strings, \<open>validateSymbols\<close> throws a \<open>SecurityError\<close>
  exactly when the array is empty, has more than 50 elements, holds two equal elements,
  or holds an element whose length is outside 1..20 or that has a code unit outside
  \<open>A-Z\<close> (0x41-0x5A), \<open>0-9\<close> (0x30-0x39), \<open>.\<close> (0x2E), \<open>-\<close> (0x2D), \<open>^\<close> (0x5E);
  otherwise it returns normally. The function reads its argument and module constants
  only, so there is no state for it to modify.
\<close>

theorem validateSymbols_throws_iff:
  "((\<exists>e. validateSymbols symbols = Inl e) \<longleftrightarrow>
     (symbols = [] \<or> 50 < length symbols
      \<or> (\<exists>s\<in>set symbols. length s < 1 \<or> 20 < length s
            \<or> (\<exists>c\<in>set s. c \<notin> {0x41..0x5A} \<union> {0x30..0x39} \<union> {0x2E, 0x2D, 0x5E}))
      \<or> \<not> distinct symbols))
   \<and> (validateSymbols symbols = Inr () \<longleftrightarrow>
     \<not> (symbols = [] \<or> 50 < length symbols
      \<or> (\<exists>s\<in>set symbols. length s < 1 \<or> 20 < length s
            \<or> (\<exists>c\<in>set s. c \<notin> {0x41..0x5A} \<union> {0x30..0x39} \<union> {0x2E, 0x2D, 0x5E}))
      \<or> \<not> distinct symbols))"
proof -
  have d: "card (set symbols) \<noteq> length symbols \<longleftrightarrow> \<not> distinct symbols"
    using card_distinct distinct_card by blast
  have a: "(\<exists>e. validateSymbols symbols = Inl e) \<longleftrightarrow>
     (symbols = [] \<or> 50 < length symbols
      \<or> (\<exists>s\<in>set symbols. length s < 1 \<or> 20 < length s
            \<or> (\<exists>c\<in>set s. c \<notin> {0x41..0x5A} \<union> {0x30..0x39} \<union> {0x2E, 0x2D, 0x5E}))
      \<or> \<not> distinct symbols)"
    unfolding validateSymbols_def MAX_SYMBOLS_PER_REQUEST_def
    using validateEach_Inl[of symbols] validateSymbol_Inl d
    by (auto simp del: Un_iff)
  have b: "validateSymbols symbols = Inr () \<longleftrightarrow> \<not> (\<exists>e. validateSymbols symbols = Inl e)"
    by (cases "validateSymbols symbols") auto
  show ?thesis using a b by blast
qed

theorem validateSymbols_throws_iff_witness:
  "validateSymbols [[0x41, 0x41, 0x50, 0x4C], [0x5E, 0x47, 0x53, 0x50, 0x43]] = Inr ()
   \<and> (\<exists>e. validateSymbols [[0x41, 0x41, 0x50, 0x4C], [0x61]] = Inl e)"
  using validateSymbols_throws_iff [of "[[0x41, 0x41, 0x50, 0x4C], [0x5E, 0x47, 0x53, 0x50, 0x43]]"]
    validateSymbols_throws_iff [of "[[0x41, 0x41, 0x50, 0x4C], [0x61]]"]
  by simp


lemma dropWhile_hd_id: "xs = [] \<or> \<not> P (hd xs) \<Longrightarrow> dropWhile P xs = xs"
  by (cases xs) auto

lemma set_trim: "set (trim s) \<subseteq> set s"
  by (auto simp: trim_def dest!: set_dropWhileD)

lemma trim_ends:
  "trim s = [] \<or> (\<not> white_space (hd (trim s)) \<and> \<not> white_space (last (trim s)))"
proof (cases "trim s = []")
  case True then show ?thesis by simp
next
  case False
  define d where "d = dropWhile white_space s"
  define e where "e = dropWhile white_space (rev d)"
  have t: "trim s = rev e" by (simp add: trim_def d_def e_def)
  have e: "e \<noteq> []" using False t by simp
  then have he: "\<not> white_space (hd e)" unfolding e_def by (rule hd_dropWhile)
  have "rev d = takeWhile white_space (rev d) @ e" by (simp add: e_def)
  then have "rev (rev d) = rev (takeWhile white_space (rev d) @ e)" by simp
  then have dd: "d = rev e @ rev (takeWhile white_space (rev d))" by simp
  then have d: "d \<noteq> []" using e by auto
  then have hd: "\<not> white_space (hd d)" unfolding d_def by (rule hd_dropWhile)
  have "hd d = hd (rev e)" using dd e by (metis hd_append2 rev_is_Nil_conv)
  then have "\<not> white_space (hd (trim s))" using hd t by simp
  moreover have "\<not> white_space (last (trim s))" using he e t by (simp add: last_rev)
  ultimately show ?thesis by simp
qed

lemma trim_id:
  assumes "s = [] \<or> (\<not> white_space (hd s) \<and> \<not> white_space (last s))"
  shows "trim s = s"
proof -
  have 1: "dropWhile white_space s = s" using assms by (auto intro: dropWhile_hd_id)
  have "rev s = [] \<or> \<not> white_space (hd (rev s))" using assms by (auto simp: hd_rev)
  then have 2: "dropWhile white_space (rev s) = rev s" by (rule dropWhile_hd_id)
  show ?thesis by (simp add: trim_def 1 2)
qed

lemma trim_idem: "trim (trim s) = trim s"
  using trim_ends by (rule trim_id)

lemma sanitize_set:
  "set (sanitizeString s) \<subseteq> {c \<in> set s. c \<noteq> 0x3C \<and> c \<noteq> 0x3E \<and> \<not> control_char c}"
  using set_trim[of "strip_control (strip_angle s)"]
  by (auto simp: sanitizeString_def strip_control_def strip_angle_def)

lemma strip_id: "strip_control (strip_angle (sanitizeString s)) = sanitizeString s"
  using sanitize_set[of s] by (auto simp: strip_control_def strip_angle_def filter_id_conv)

text \<open>
  Claim C10. \<open>sanitizeString\<close> is idempotent, and its output holds no \<open><\<close> (0x3C), no
  \<open>>\<close> (0x3E), no control character (0x00-0x1F, 0x7F), and neither starts nor ends with
  white space.
\<close>

theorem sanitizeString_idempotent_clean:
  "sanitizeString (sanitizeString s) = sanitizeString s
   \<and> 0x3C \<notin> set (sanitizeString s)
   \<and> 0x3E \<notin> set (sanitizeString s)
   \<and> set (sanitizeString s) \<inter> ({0x00..0x1F} \<union> {0x7F}) = {}
   \<and> (sanitizeString s = []
        \<or> (\<not> white_space (hd (sanitizeString s)) \<and> \<not> white_space (last (sanitizeString s))))"
proof -
  have 1: "sanitizeString (sanitizeString s) = sanitizeString s"
    using strip_id[of s] trim_idem by (metis sanitizeString_def)
  have 2: "0x3C \<notin> set (sanitizeString s)" "0x3E \<notin> set (sanitizeString s)"
    using sanitize_set[of s] by auto
  have 3: "set (sanitizeString s) \<inter> ({0x00..0x1F} \<union> {0x7F}) = {}"
    using sanitize_set[of s] by (auto simp: control_char_def)
  have 4: "sanitizeString s = []
        \<or> (\<not> white_space (hd (sanitizeString s)) \<and> \<not> white_space (last (sanitizeString s)))"
    unfolding sanitizeString_def by (rule trim_ends)
  show ?thesis using 1 2 3 4 by blast
qed

section \<open>Properties of the middleware rate limit\<close>

lemma calls_Cons_fst:
  "fst (checkRateLimit_calls rc ident maxRequests windowMs (now # later)) =
     fst (checkRateLimit rc now ident maxRequests windowMs)
     # fst (checkRateLimit_calls (snd (checkRateLimit rc now ident maxRequests windowMs))
            ident maxRequests windowMs later)"
  by (simp split: prod.splits)

lemma calls_Cons_snd:
  "snd (checkRateLimit_calls rc ident maxRequests windowMs (now # later)) =
     snd (checkRateLimit_calls (snd (checkRateLimit rc now ident maxRequests windowMs))
            ident maxRequests windowMs later)"
  by (simp split: prod.splits)

lemma checkRateLimit_other:
  "other \<noteq> ident \<Longrightarrow>
   snd (checkRateLimit rc now other maxRequests windowMs) ident = rc ident"
  by (auto simp: checkRateLimit_def split: option.splits)

lemma checkRateLimit_count_within:
  assumes "maxRequests = real_of_int m" "1 \<le> m" "count_within rc ident maxRequests"
  shows "count_within (snd (checkRateLimit rc now ident maxRequests windowMs)) ident maxRequests"
  using assms by (auto simp: checkRateLimit_def count_within_def split: option.splits)

lemma calls_count_within:
  assumes "maxRequests = real_of_int m" "1 \<le> m"
  shows "count_within rc ident maxRequests \<Longrightarrow>
    count_within (snd (checkRateLimit_calls rc ident maxRequests windowMs nows)) ident maxRequests"
proof (induction nows arbitrary: rc)
  case Nil
  then show ?case by simp
next
  case (Cons now later)
  have "count_within (snd (checkRateLimit rc now ident maxRequests windowMs)) ident maxRequests"
    using assms Cons.prems by (rule checkRateLimit_count_within)
  then show ?case using Cons.IH by (simp only: calls_Cons_snd)
qed

lemma in_window_results:
  assumes "rc ident = Some r" "1 \<le> count r" "count r \<le> m"
    and "\<forall>t\<in>set nows. t \<le> resetTime r"
  shows "fst (checkRateLimit_calls rc ident (real_of_int m) windowMs nows) =
     replicate (min (length nows) (nat (m - count r))) True
     @ replicate (length nows - nat (m - count r)) False"
  using assms
proof (induction nows arbitrary: rc r)
  case Nil
  then show ?case by simp
next
  case (Cons now later)
  have le: "now \<le> resetTime r" using Cons.prems by simp
  show ?case
  proof (cases "count r = m")
    case True
    then have step: "checkRateLimit rc now ident (real_of_int m) windowMs = (False, rc)"
      using Cons.prems(1) le by (simp add: checkRateLimit_def)
    have "fst (checkRateLimit_calls rc ident (real_of_int m) windowMs later) =
        replicate (min (length later) (nat (m - count r))) True
        @ replicate (length later - nat (m - count r)) False"
      using Cons.prems by (intro Cons.IH) auto
    then show ?thesis using step True by (simp add: calls_Cons_fst del: checkRateLimit_calls.simps)
  next
    case False
    then have lt: "count r < m" using Cons.prems by simp
    define r' where "r' = r\<lparr>count := count r + 1\<rparr>"
    define rc' where "rc' = rc(ident \<mapsto> r')"
    have step: "checkRateLimit rc now ident (real_of_int m) windowMs = (True, rc')"
      using Cons.prems(1) le lt by (simp add: checkRateLimit_def rc'_def r'_def)
    have "fst (checkRateLimit_calls rc' ident (real_of_int m) windowMs later) =
        replicate (min (length later) (nat (m - count r'))) True
        @ replicate (length later - nat (m - count r')) False"
      using Cons.prems lt by (intro Cons.IH) (auto simp: rc'_def r'_def)
    moreover have "nat (m - count r) = Suc (nat (m - count r'))"
      using lt by (simp add: r'_def)
    ultimately show ?thesis using step by (simp add: calls_Cons_fst del: checkRateLimit_calls.simps)
  qed
qed

lemma opening_call:
  assumes "opens_window rc ident now"
  shows "checkRateLimit rc now ident maxRequests windowMs =
     (True, rc(ident \<mapsto> \<lparr>count = 1, resetTime = now + windowMs\<rparr>))"
  using assms by (auto simp: checkRateLimit_def opens_window_def split: option.splits)

text \<open>
  Claim C9, as amended. For an integer \<open>maxRequests \<ge> 1\<close>: calls of \<open>checkRateLimit\<close>
  for an identifier keep its stored count at most \<open>maxRequests\<close>; and when a call opens
  a window and the later calls all fall inside it (\<open>now \<le> resetTime\<close>), the calls of the
  window return \<open>true\<close> for the first \<open>maxRequests\<close> of them and \<open>false\<close> for every
  further one. A call for another identifier leaves the record of this one as it is.
\<close>

theorem checkRateLimit_window_bound:
  assumes "maxRequests = real_of_int m" and "1 \<le> m"
  shows "(count_within rc ident maxRequests \<longrightarrow>
            count_within (snd (checkRateLimit_calls rc ident maxRequests windowMs nows))
              ident maxRequests)
       \<and> (opens_window rc ident now \<and> (\<forall>t\<in>set nows. t \<le> now + windowMs) \<longrightarrow>
            fst (checkRateLimit_calls rc ident maxRequests windowMs (now # nows)) =
              replicate (min (Suc (length nows)) (nat m)) True
              @ replicate (Suc (length nows) - nat m) False)
       \<and> (other \<noteq> ident \<longrightarrow>
            snd (checkRateLimit rc now other otherMax otherWindow) ident = rc ident)"
proof (intro conjI impI)
  assume "count_within rc ident maxRequests"
  with assms show "count_within (snd (checkRateLimit_calls rc ident maxRequests windowMs nows))
              ident maxRequests"
    by (rule calls_count_within)
next
  assume a: "opens_window rc ident now \<and> (\<forall>t\<in>set nows. t \<le> now + windowMs)"
  define r where "r = \<lparr>count = 1, resetTime = now + windowMs\<rparr>"
  define rc' where "rc' = rc(ident \<mapsto> r)"
  have step: "checkRateLimit rc now ident maxRequests windowMs = (True, rc')"
    using a opening_call by (simp add: rc'_def r_def)
  have "fst (checkRateLimit_calls rc' ident (real_of_int m) windowMs nows) =
     replicate (min (length nows) (nat (m - count r))) True
     @ replicate (length nows - nat (m - count r)) False"
    using a assms(2) by (intro in_window_results) (auto simp: rc'_def r_def)
  moreover have "nat m = Suc (nat (m - count r))" using assms(2) by (simp add: r_def)
  ultimately show "fst (checkRateLimit_calls rc ident maxRequests windowMs (now # nows)) =
              replicate (min (Suc (length nows)) (nat m)) True
              @ replicate (Suc (length nows) - nat m) False"
    using step assms(1) by (simp add: calls_Cons_fst del: checkRateLimit_calls.simps)
next
  assume "other \<noteq> ident"
  then show "snd (checkRateLimit rc now other otherMax otherWindow) ident = rc ident"
    by (rule checkRateLimit_other)
qed

theorem checkRateLimit_window_bound_witness:
  "(2::real) = real_of_int 2 \<and> (1::int) \<le> 2
   \<and> count_within Map.empty [0x41] 2
   \<and> count_within (snd (checkRateLimit_calls Map.empty [0x41] 2 1000 [0, 10, 20, 1000, 1001])) [0x41] 2
   \<and> opens_window Map.empty [0x41] 0
   \<and> fst (checkRateLimit_calls Map.empty [0x41] 2 1000 [0, 10, 20, 1000]) = [True, True, False, False]
   \<and> [0x42] \<noteq> [0x41 :: code_unit]
   \<and> snd (checkRateLimit Map.empty 0 [0x42] 5 1000) [0x41] = Map.empty [0x41]"
proof -
  have m: "(2::real) = real_of_int 2" "(1::int) \<le> 2" by simp_all
  have c: "count_within Map.empty [0x41] 2" by (simp add: count_within_def)
  have o: "opens_window Map.empty [0x41] 0 \<and> (\<forall>t\<in>set [10, 20, 1000::real]. t \<le> 0 + 1000)"
    by (simp add: opens_window_def)
  have n: "replicate (min (Suc (length [10, 20, 1000::real])) (nat 2)) True
              @ replicate (Suc (length [10, 20, 1000::real]) - nat 2) False = [True, True, False, False]"
    by (simp add: numeral_2_eq_2)
  have d: "[0x42] \<noteq> [0x41 :: code_unit]" by simp
  have w: "fst (checkRateLimit_calls Map.empty [0x41] 2 1000 [0, 10, 20, 1000])
      = [True, True, False, False]"
    using checkRateLimit_window_bound[OF m, where rc = Map.empty and ident = "[0x41]"
        and windowMs = 1000 and now = 0 and nows = "[10, 20, 1000]"] o n
    by simp
  have i: "count_within (snd (checkRateLimit_calls Map.empty [0x41] 2 1000 [0, 10, 20, 1000, 1001]))
      [0x41] 2"
    using checkRateLimit_window_bound[OF m, where rc = Map.empty and ident = "[0x41]"
        and windowMs = 1000 and nows = "[0, 10, 20, 1000, 1001]"] c
    by simp
  have x: "snd (checkRateLimit Map.empty 0 [0x42] 5 1000) [0x41] = Map.empty [0x41]"
    using checkRateLimit_window_bound[OF m, where rc = Map.empty and ident = "[0x41]"
        and other = "[0x42]" and now = 0 and otherMax = 5 and otherWindow = 1000] d
    by simp
  show ?thesis using m c o w i d x by simp
qed

text \<open>
  The claim as stated, for any \<open>maxRequests\<close>, fails: the call that opens a window is
  granted and stores the count 1 without looking at \<open>maxRequests\<close>, so with
  \<open>maxRequests = 0\<close> one call is granted and the stored count exceeds the limit; and the
  test \<open>count >= maxRequests\<close> lets the count pass a limit that is not an integer
  (\<open>2.5\<close>: three calls granted, count 3).
\<close>

theorem checkRateLimit_limit_counterexample:
  "fst (checkRateLimit Map.empty 0 [0x41] 0 1000) = True
   \<and> map_option count (snd (checkRateLimit Map.empty 0 [0x41] 0 1000) [0x41]) = Some 1
   \<and> \<not> count_within (snd (checkRateLimit Map.empty 0 [0x41] 0 1000)) [0x41] 0
   \<and> fst (checkRateLimit_calls Map.empty [0x41] (5/2) 1000 [0, 10, 20, 30]) = [True, True, True, False]
   \<and> \<not> count_within (snd (checkRateLimit_calls Map.empty [0x41] (5/2) 1000 [0, 10, 20, 30])) [0x41] (5/2)"
  by (simp add: checkRateLimit_def count_within_def)

section \<open>Properties of the cache layer\<close>

lemma oldest_by_mem: "oldest_by f best es \<in> set (best # es)"
  by (induction es arbitrary: best) auto

lemma oldest_by_le: "\<forall>e\<in>set (best # es). f (oldest_by f best es) \<le> f e"
proof (induction es arbitrary: best)
  case Nil
  then show ?case by simp
next
  case (Cons a es)
  let ?b = "if f a < f best then a else best"
  have "f (oldest_by f ?b es) \<le> f ?b" using Cons.IH[of ?b] by simp
  moreover have "f ?b \<le> f a" "f ?b \<le> f best" by auto
  ultimately show ?case using Cons.IH[of ?b] by auto
qed

lemma victim_LRU:
  assumes "store \<noteq> []"
  shows "\<exists>v. victim LRU store = Some v \<and> v \<in> set store
      \<and> (\<forall>e\<in>set store. lastAccessedAt v \<le> lastAccessedAt e)"
proof -
  obtain a es where s: "store = a # es" using assms by (cases store) auto
  have v: "victim LRU store = Some (oldest_by lastAccessedAt a es)"
    by (simp add: victim_def s)
  show ?thesis
    using v oldest_by_mem[of lastAccessedAt a es] oldest_by_le[of a es lastAccessedAt]
    unfolding s by blast
qed

lemma victim_mem:
  assumes "victim strategy store = Some v"
  shows "v \<in> set store"
proof -
  obtain a es where s: "store = a # es" using assms by (cases store) (auto simp: victim_def)
  have "v = oldest_by lastAccessedAt a es \<or> v = oldest_by accessCount a es
      \<or> v = oldest_by insertedAt a es"
    using assms by (cases strategy) (auto simp: victim_def s)
  then show ?thesis
    using oldest_by_mem[of lastAccessedAt a es] oldest_by_mem[of accessCount a es]
      oldest_by_mem[of insertedAt a es]
    unfolding s by auto
qed

lemma length_remove_key_mem:
  "v \<in> set store \<Longrightarrow> length (remove_key store (key v)) < length store"
  unfolding remove_key_def
  by (induction store) (auto simp: less_Suc_eq_le)

lemma length_remove_key: "length (remove_key store k) \<le> length store"
  by (simp add: remove_key_def)

lemma length_evict: "store \<noteq> [] \<Longrightarrow> length (evict strategy store) < length store"
proof -
  assume "store \<noteq> []"
  then obtain v where "victim strategy store = Some v"
    by (cases store) (auto simp: victim_def)
  then show ?thesis using victim_mem length_remove_key_mem by (fastforce simp: evict_def)
qed

lemma length_make_room: "length (make_room maxCacheSize strategy store) \<le> length store"
proof (cases "store = []")
  case True
  then show ?thesis by (simp add: make_room_def evict_def victim_def)
next
  case False
  then show ?thesis using length_evict[of store strategy] by (simp add: make_room_def)
qed

lemma length_cache_set:
  assumes "length store \<le> maxCacheSize"
  shows "length (cache_set maxCacheSize strategy now k v ttlMs store) \<le> maxCacheSize"
proof -
  have "length (make_room maxCacheSize strategy store) \<le> maxCacheSize"
    using length_make_room[of maxCacheSize strategy store] assms by simp
  then show ?thesis using assms by (simp add: cache_set_def)
qed

lemma length_cache_get: "length (snd (cache_get now k store)) \<le> length store"
  by (auto simp: cache_get_def length_remove_key split: option.splits)

lemma length_apply_op:
  assumes "length store \<le> maxCacheSize"
  shows "length (apply_op maxCacheSize strategy store op) \<le> maxCacheSize"
proof (cases op)
  case (Get now k)
  then show ?thesis using length_cache_get[of now k store] assms by simp
next
  case (Set now k v ttlMs)
  then show ?thesis using length_cache_set[OF assms] by simp
next
  case (Invalidate k)
  then show ?thesis using length_remove_key[of store k] assms by (simp add: invalidate_def)
qed

lemma length_apply_ops:
  "length store \<le> maxCacheSize \<Longrightarrow> length (apply_ops maxCacheSize strategy store ops) \<le> maxCacheSize"
  unfolding apply_ops_def
proof (induction ops arbitrary: store)
  case Nil
  then show ?case by simp
next
  case (Cons op ops)
  have "length (apply_op maxCacheSize strategy store op) \<le> maxCacheSize"
    using Cons.prems by (rule length_apply_op)
  then show ?case using Cons.IH by simp
qed


lemma remove_key_remove1:
  "distinct (map key store) \<Longrightarrow> v \<in> set store \<Longrightarrow> remove_key store (key v) = remove1 v store"
proof (induction store)
  case Nil
  then show ?case by simp
next
  case (Cons a store)
  show ?case
  proof (cases "a = v")
    case True
    have "key v \<notin> key ` set store" using Cons.prems(1) True by simp
    then have "\<forall>e\<in>set store. key e \<noteq> key v" by (metis imageI)
    then have "filter (\<lambda>e. key e \<noteq> key v) store = store" by (simp add: filter_id_conv)
    then show ?thesis using True by (simp add: remove_key_def)
  next
    case False
    then have m: "v \<in> set store" using Cons.prems(2) by simp
    then have "key a \<noteq> key v" using Cons.prems(1) by force
    moreover have "remove_key store (key v) = remove1 v store"
      using Cons.IH Cons.prems(1) m by simp
    ultimately show ?thesis using False by (simp add: remove_key_def)
  qed
qed

lemma lookup_None: "lookup store k = None \<longleftrightarrow> k \<notin> set (map key store)"
  by (auto simp: lookup_def find_None_iff)

lemma cache_set_full_LRU:
  assumes "1 \<le> maxCacheSize" "distinct (map key store)" "length store = maxCacheSize"
    "lookup store k = None"
  shows "\<exists>victim\<in>set store. (\<forall>e\<in>set store. lastAccessedAt victim \<le> lastAccessedAt e)
     \<and> cache_set maxCacheSize LRU now k v ttlMs store
         = remove1 victim store @ [new_entry now k v ttlMs]"
proof -
  have "store \<noteq> []" using assms(1,3) by auto
  then obtain vic where vic: "victim LRU store = Some vic" "vic \<in> set store"
      "\<forall>e\<in>set store. lastAccessedAt vic \<le> lastAccessedAt e"
    using victim_LRU by blast
  have "evict LRU store = remove1 vic store"
    using vic(1,2) assms(2) by (simp add: evict_def remove_key_remove1)
  then have room: "make_room maxCacheSize LRU store = remove1 vic store"
    using assms(3) by (simp add: make_room_def)
  have "length (remove1 vic store) < maxCacheSize"
    using vic(2) assms(1,3) by (simp add: length_remove1)
  then have "cache_set maxCacheSize LRU now k v ttlMs store
         = remove1 vic store @ [new_entry now k v ttlMs]"
    using assms(4) room by (simp add: cache_set_def)
  then show ?thesis using vic(2,3) by blast
qed

lemma key_written_entry: "key (written_entry w) = write_key w"
  by (cases w) (simp add: new_entry_def)

lemma lastAccessedAt_written_entry: "lastAccessedAt (written_entry w) = write_time w"
  by (cases w) (simp add: new_entry_def)

lemma apply_write_op:
  "apply_op maxCacheSize strategy store (write_op w) =
     (if lookup store (write_key w) \<noteq> None
      then map (\<lambda>e. if key e = write_key w then written_entry w else e) store
      else if length (make_room maxCacheSize strategy store) < maxCacheSize
      then make_room maxCacheSize strategy store @ [written_entry w]
      else make_room maxCacheSize strategy store)"
  by (cases w) (simp add: cache_set_def)

lemma writes_below_capacity:
  "distinct (map write_key writes) \<Longrightarrow> set (map write_key writes) \<inter> set (map key store) = {}
   \<Longrightarrow> length store + length writes \<le> maxCacheSize
   \<Longrightarrow> apply_ops maxCacheSize strategy store (map write_op writes)
       = store @ map written_entry writes"
proof (induction writes arbitrary: store)
  case Nil
  then show ?case by (simp add: apply_ops_def)
next
  case (Cons w writes)
  have k: "lookup store (write_key w) = None" using Cons.prems(2) by (simp add: lookup_None)
  have l: "length store < maxCacheSize" using Cons.prems(3) by simp
  have step: "apply_op maxCacheSize strategy store (write_op w) = store @ [written_entry w]"
    using k l by (simp add: apply_write_op make_room_def)
  have "apply_ops maxCacheSize strategy (store @ [written_entry w]) (map write_op writes)
       = (store @ [written_entry w]) @ map written_entry writes"
    using Cons.prems by (intro Cons.IH) (auto simp: key_written_entry)
  then show ?case using step by (simp add: apply_ops_def)
qed

lemma map_remove1_inj:
  "distinct (map f xs) \<Longrightarrow> x \<in> set xs \<Longrightarrow> map f (remove1 x xs) = remove1 (f x) (map f xs)"
proof (induction xs)
  case Nil
  then show ?case by simp
next
  case (Cons a xs)
  show ?case
  proof (cases "x = a")
    case True
    then show ?thesis by simp
  next
    case False
    then have m: "x \<in> set xs" using Cons.prems(2) by simp
    have "f a \<notin> f ` set xs" using Cons.prems(1) by simp
    then have "f a \<noteq> f x" using m by force
    moreover have "map f (remove1 x xs) = remove1 (f x) (map f xs)"
      using Cons.IH Cons.prems(1) m by simp
    ultimately show ?thesis using False by simp
  qed
qed

lemma writes_over_capacity:
  assumes "1 \<le> maxCacheSize" "distinct (map write_key writes)" "length writes = maxCacheSize + 1"
  shows "\<exists>victim\<in>set (butlast writes).
       (\<forall>w\<in>set (butlast writes). write_time victim \<le> write_time w)
       \<and> map key (apply_ops maxCacheSize LRU [] (map write_op writes))
           = remove1 (write_key victim) (map write_key (butlast writes)) @ [write_key (last writes)]"
proof -
  define first where "first = butlast writes"
  define w where "w = last writes"
  have ne: "writes \<noteq> []" using assms(3) by auto
  then have ws: "writes = first @ [w]" by (simp add: first_def w_def)
  have lf: "length first = maxCacheSize" using assms(3) ws by simp
  have df: "distinct (map write_key first)" and nk: "write_key w \<notin> set (map write_key first)"
    using assms(2) ws by auto
  define store where "store = map written_entry first"
  have st: "apply_ops maxCacheSize LRU [] (map write_op first) = store"
    using writes_below_capacity[of first "[]" maxCacheSize LRU] df lf by (simp add: store_def)
  have ks: "map key store = map write_key first"
    by (simp add: store_def key_written_entry)
  have ds: "distinct (map key store)" using df ks by simp
  have ls: "length store = maxCacheSize" using lf by (simp add: store_def)
  have lk: "lookup store (write_key w) = None" using nk ks by (simp add: lookup_None)
  obtain now k v ttlMs where wq: "w = (now, k, v, ttlMs)" by (cases w)
  obtain vic where vic: "vic \<in> set store" "\<forall>e\<in>set store. lastAccessedAt vic \<le> lastAccessedAt e"
    "cache_set maxCacheSize LRU now k v ttlMs store = remove1 vic store @ [new_entry now k v ttlMs]"
    using cache_set_full_LRU[OF assms(1) ds ls, of k now v ttlMs] lk wq by auto
  obtain u where u: "u \<in> set first" "vic = written_entry u" using vic(1) by (auto simp: store_def)
  have fin: "apply_ops maxCacheSize LRU [] (map write_op writes)
      = remove1 vic store @ [written_entry w]"
    using st vic(3) wq by (simp add: ws apply_ops_def)
  have "map key (remove1 vic store) = remove1 (key vic) (map key store)"
    using ds vic(1) by (rule map_remove1_inj)
  then have keys: "map key (apply_ops maxCacheSize LRU [] (map write_op writes))
      = remove1 (write_key u) (map write_key first) @ [write_key w]"
    using fin ks u(2) by (simp add: key_written_entry)
  have "\<forall>x\<in>set first. write_time u \<le> write_time x"
  proof
    fix x assume "x \<in> set first"
    then have "written_entry x \<in> set store" by (simp add: store_def)
    then have "lastAccessedAt vic \<le> lastAccessedAt (written_entry x)" using vic(2) by blast
    then show "write_time u \<le> write_time x" using u(2) by (simp add: lastAccessedAt_written_entry)
  qed
  then show ?thesis using u(1) keys unfolding first_def w_def by blast
qed

lemma least_is_unique:
  assumes "distinct (map f xs)" "x \<in> set xs" "\<forall>y\<in>set xs. f x \<le> (f y :: 'a :: linorder)"
  shows "\<forall>y\<in>set xs. y \<noteq> x \<longrightarrow> f x < f y"
proof (intro ballI impI)
  fix y assume y: "y \<in> set xs" "y \<noteq> x"
  have "inj_on f (set xs)" using assms(1) by (simp add: distinct_map)
  then have "f y \<noteq> f x" using y assms(2) by (auto dest: inj_onD)
  moreover have "f x \<le> f y" using assms(3) y(1) by blast
  ultimately show "f x < f y" by simp
qed

text \<open>
  Claim C5. Under the LRU policy no sequence of cache operations makes the store hold
  more than \<open>maxCacheSize\<close> entries. For a capacity of at least one entry (the capacities
  \<open>CacheValidator.validateCacheSize\<close> accepts): a write of a new key to a full store
  evicts, before inserting, exactly one entry, the one with the oldest \<open>lastAccessedAt\<close>
  (no entry of the store was accessed earlier, and with distinct time stamps every other
  entry was accessed later); in particular, writing \<open>maxCacheSize + 1\<close> distinct keys to
  an empty cache evicts exactly one key, the least recently accessed one.
\<close>

theorem lru_capacity_and_eviction:
  "(length store \<le> maxCacheSize \<longrightarrow>
      length (apply_ops maxCacheSize LRU store ops) \<le> maxCacheSize)
   \<and> (1 \<le> maxCacheSize \<and> distinct (map key store) \<and> length store = maxCacheSize
        \<and> lookup store k = None \<longrightarrow>
        (\<exists>victim\<in>set store.
           (\<forall>e\<in>set store. lastAccessedAt victim \<le> lastAccessedAt e)
           \<and> (distinct (map lastAccessedAt store) \<longrightarrow>
                (\<forall>e\<in>set store. e \<noteq> victim \<longrightarrow> lastAccessedAt victim < lastAccessedAt e))
           \<and> cache_set maxCacheSize LRU now k v ttlMs store
               = remove1 victim store @ [new_entry now k v ttlMs]))
   \<and> (1 \<le> maxCacheSize \<and> distinct (map write_key writes)
        \<and> length writes = maxCacheSize + 1 \<longrightarrow>
        (\<exists>victim\<in>set (butlast writes).
           (\<forall>w\<in>set (butlast writes). write_time victim \<le> write_time w)
           \<and> (distinct (map write_time (butlast writes)) \<longrightarrow>
                (\<forall>w\<in>set (butlast writes). w \<noteq> victim \<longrightarrow> write_time victim < write_time w))
           \<and> map key (apply_ops maxCacheSize LRU [] (map write_op writes))
               = remove1 (write_key victim) (map write_key (butlast writes))
                 @ [write_key (last writes)]))"
proof (intro conjI impI)
  assume "length store \<le> maxCacheSize"
  then show "length (apply_ops maxCacheSize LRU store ops) \<le> maxCacheSize"
    by (rule length_apply_ops)
next
  assume a: "1 \<le> maxCacheSize \<and> distinct (map key store) \<and> length store = maxCacheSize
        \<and> lookup store k = None"
  then have c: "1 \<le> maxCacheSize" by simp
  obtain victim where vic: "victim \<in> set store"
      "\<forall>e\<in>set store. lastAccessedAt victim \<le> lastAccessedAt e"
      "cache_set maxCacheSize LRU now k v ttlMs store
         = remove1 victim store @ [new_entry now k v ttlMs]"
    using a cache_set_full_LRU[OF c, of store k now v ttlMs] by (elim conjE) auto
  have "distinct (map lastAccessedAt store) \<longrightarrow>
      (\<forall>e\<in>set store. e \<noteq> victim \<longrightarrow> lastAccessedAt victim < lastAccessedAt e)"
    using least_is_unique[OF _ vic(1,2)] by blast
  then show "\<exists>victim\<in>set store.
           (\<forall>e\<in>set store. lastAccessedAt victim \<le> lastAccessedAt e)
           \<and> (distinct (map lastAccessedAt store) \<longrightarrow>
                (\<forall>e\<in>set store. e \<noteq> victim \<longrightarrow> lastAccessedAt victim < lastAccessedAt e))
           \<and> cache_set maxCacheSize LRU now k v ttlMs store
               = remove1 victim store @ [new_entry now k v ttlMs]"
    using vic by blast
next
  assume a: "1 \<le> maxCacheSize \<and> distinct (map write_key writes)
        \<and> length writes = maxCacheSize + 1"
  then have c: "1 \<le> maxCacheSize" by simp
  obtain victim where vic: "victim \<in> set (butlast writes)"
      "\<forall>w\<in>set (butlast writes). write_time victim \<le> write_time w"
      "map key (apply_ops maxCacheSize LRU [] (map write_op writes))
         = remove1 (write_key victim) (map write_key (butlast writes))
           @ [write_key (last writes)]"
    using a writes_over_capacity[OF c, of writes] by (elim conjE) auto
  have "distinct (map write_time (butlast writes)) \<longrightarrow>
      (\<forall>w\<in>set (butlast writes). w \<noteq> victim \<longrightarrow> write_time victim < write_time w)"
    using least_is_unique[OF _ vic(1,2)] by blast
  then show "\<exists>victim\<in>set (butlast writes).
           (\<forall>w\<in>set (butlast writes). write_time victim \<le> write_time w)
           \<and> (distinct (map write_time (butlast writes)) \<longrightarrow>
                (\<forall>w\<in>set (butlast writes). w \<noteq> victim \<longrightarrow> write_time victim < write_time w))
           \<and> map key (apply_ops maxCacheSize LRU [] (map write_op writes))
               = remove1 (write_key victim) (map write_key (butlast writes))
                 @ [write_key (last writes)]"
    using vic by blast
qed

theorem lru_capacity_and_eviction_witness:
  "(1::nat) \<le> 2
   \<and> length (apply_ops 2 LRU [] (map write_op threeWrites)) \<le> 2
   \<and> distinct (map key twoEntries) \<and> length twoEntries = 2 \<and> lookup twoEntries ''GOOG'' = None
   \<and> (\<exists>victim\<in>set twoEntries.
         (\<forall>e\<in>set twoEntries. lastAccessedAt victim \<le> lastAccessedAt e)
         \<and> (\<forall>e\<in>set twoEntries. e \<noteq> victim \<longrightarrow> lastAccessedAt victim < lastAccessedAt e)
         \<and> cache_set 2 LRU 3 ''GOOG'' 0 60000 twoEntries
             = remove1 victim twoEntries @ [new_entry 3 ''GOOG'' 0 60000])
   \<and> distinct (map write_key threeWrites) \<and> length threeWrites = 2 + 1
   \<and> (\<exists>victim\<in>set (butlast threeWrites).
         (\<forall>w\<in>set (butlast threeWrites). write_time victim \<le> write_time w)
         \<and> map key (apply_ops 2 LRU [] (map write_op threeWrites))
             = remove1 (write_key victim) (map write_key (butlast threeWrites))
               @ [write_key (last threeWrites)])
   \<and> map key (apply_ops 2 LRU [] (map write_op threeWrites)) = [''MSFT'', ''GOOG'']
   \<and> length (apply_ops 0 LRU ([] :: nat CacheStore) (map write_op threeWrites)) \<le> 0"
proof -
  have h: "(1::nat) \<le> 2" by simp
  have e: "length ([] :: nat CacheStore) \<le> 2" "length ([] :: nat CacheStore) \<le> 0" by simp_all
  have b: "distinct (map key twoEntries) \<and> length twoEntries = 2
      \<and> lookup twoEntries ''GOOG'' = None"
    by (simp add: twoEntries_def new_entry_def lookup_def)
  have d: "distinct (map write_key threeWrites) \<and> length threeWrites = 2 + 1"
    by (simp add: threeWrites_def)
  have s: "distinct (map lastAccessedAt twoEntries)"
    by (simp add: twoEntries_def new_entry_def)
  have r: "map key (apply_ops 2 LRU [] (map write_op threeWrites)) = [''MSFT'', ''GOOG'']"
    by (simp add: threeWrites_def apply_ops_def cache_set_def make_room_def lookup_def evict_def
        victim_def remove_key_def new_entry_def)
  show ?thesis
    using lru_capacity_and_eviction[where maxCacheSize = 2 and store = twoEntries
        and ops = "map write_op threeWrites" and writes = threeWrites and k = "''GOOG''"
        and now = 3 and v = 0 and ttlMs = 60000]
      lru_capacity_and_eviction[where maxCacheSize = 2 and store = "[]"
        and ops = "map write_op threeWrites" and writes = threeWrites]
      lru_capacity_and_eviction[where maxCacheSize = 0 and store = "[] :: nat CacheStore"
        and ops = "map write_op threeWrites"]
      h e b d s r
    by blast
qed

section \<open>Properties of the data quality reporter\<close>

lemma weight_pos: "0 < weight tier"
  by (cases tier) simp_all

lemma presentWeight_bounds:
  "0 \<le> presentWeight hints payload \<and> presentWeight hints payload \<le> totalWeight hints"
proof (induction hints)
  case Nil
  then show ?case by (simp add: presentWeight_def totalWeight_def)
next
  case (Cons a hints)
  obtain f t where a: "a = (f, t)" by (cases a)
  have h: "0 \<le> presentWeight hints payload" "presentWeight hints payload \<le> totalWeight hints"
    using Cons.IH by simp_all
  have p: "presentWeight (a # hints) payload
      = (if present payload f then weight t else 0) + presentWeight hints payload"
    by (simp add: presentWeight_def a)
  have w: "totalWeight (a # hints) = weight t + totalWeight hints"
    by (simp add: totalWeight_def a)
  show ?case using h weight_pos[of t] unfolding p w by auto
qed

lemma completenessPercent_bounds:
  "0 \<le> completenessPercent hints payload \<and> completenessPercent hints payload \<le> 100"
proof (cases "totalWeight hints = 0")
  case True
  then show ?thesis by (simp add: completenessPercent_def)
next
  case False
  have b: "0 \<le> presentWeight hints payload" "presentWeight hints payload \<le> totalWeight hints"
    using presentWeight_bounds[of hints payload] by simp_all
  then have pos: "0 < totalWeight hints" using False by simp
  define q where "q = presentWeight hints payload / totalWeight hints"
  have "0 \<le> q" unfolding q_def using b(1) pos by simp
  moreover have "q \<le> 1" unfolding q_def using b(2) pos by simp
  ultimately have "0 \<le> q * 100 \<and> q * 100 \<le> 100" by simp
  then show ?thesis unfolding completenessPercent_def q_def .
qed

lemma presentWeight_all_present:
  "list_all (\<lambda>(field, tier). present payload field) hints \<Longrightarrow>
   presentWeight hints payload = totalWeight hints"
  by (induction hints) (auto simp: presentWeight_def totalWeight_def)

lemma totalWeight_append:
  "totalWeight (pre @ post) = totalWeight pre + totalWeight post"
  by (simp add: totalWeight_def)

lemma presentWeight_append:
  "presentWeight (pre @ post) payload = presentWeight pre payload + presentWeight post payload"
  by (simp add: presentWeight_def)

lemma presentWeight_one_critical_missing:
  assumes "hints = pre @ (field, critical) # post" "\<not> present payload field"
    "list_all (\<lambda>(g, tier). present payload g) (pre @ post)"
  shows "presentWeight hints payload = totalWeight hints - 2"
proof -
  have "presentWeight pre payload = totalWeight pre" "presentWeight post payload = totalWeight post"
    using assms(3) by (simp_all add: presentWeight_all_present)
  moreover have "presentWeight [(field, critical)] payload = 0"
    using assms(2) by (simp add: presentWeight_def)
  moreover have "totalWeight [(field, critical)] = 2" by (simp add: totalWeight_def)
  moreover have "hints = pre @ [(field, critical)] @ post" using assms(1) by simp
  ultimately show ?thesis by (simp only: presentWeight_append totalWeight_append)
qed

lemma percent_one_critical_missing:
  assumes "hints = pre @ (field, critical) # post" "\<not> present payload field"
    "list_all (\<lambda>(g, tier). present payload g) (pre @ post)" "totalWeight hints = 11 / 2"
  shows "completenessPercent hints payload = 700 / 11"
proof -
  have "presentWeight hints payload = totalWeight hints - 2"
    using assms(1,2,3) by (rule presentWeight_one_critical_missing)
  then have "presentWeight hints payload = 7 / 2" by (simp add: assms(4))
  then show ?thesis by (simp add: completenessPercent_def assms(4))
qed

text \<open>
  Claim C6, as amended. For every payload and set of expected fields, the completeness
  score, which is the sum of the weights (critical 2.0, important 1.5, standard 1.0) of the
  present expected fields, divided by the sum of the weights of all expected fields,
  times 100, rounded to the nearest integer and clamped to 0..100, lies in 0..100 (the
  rounded share already does, so the clamp changes nothing); in particular a payload that
  lacks one critical field, and no other, out of fields of total weight 5.5 has the
  share 63.63..., which scores 64 rounded to the nearest integer as the score is
  defined, and 63 only when rounded down, as the example of section 8 of the
  specification computes it; under either rounding it is classified \<open>Low\<close>.
\<close>

theorem completenessScore_weighted_ratio:
  "0 \<le> completenessScore hints payload \<and> completenessScore hints payload \<le> 100
   \<and> completenessScore hints payload = round (completenessPercent hints payload)
   \<and> completenessScoreFloor hints payload \<le> completenessScore hints payload
   \<and> completenessScore hints payload \<le> completenessScoreFloor hints payload + 1
   \<and> (hints = pre @ (field, critical) # post \<and> \<not> present payload field
        \<and> list_all (\<lambda>(g, tier). present payload g) (pre @ post)
        \<and> totalWeight hints = 11 / 2 \<longrightarrow>
        completenessScore hints payload = 64
        \<and> completenessScoreFloor hints payload = 63
        \<and> sourceReliability (completenessScore hints payload)
             (missingFields hints payload) highSeverityIssue = Low
        \<and> sourceReliability (completenessScoreFloor hints payload)
             (missingFields hints payload) highSeverityIssue = Low)"
proof -
  define x where "x = completenessPercent hints payload"
  have b: "0 \<le> x" "x \<le> 100"
    using completenessPercent_bounds[of hints payload] by (simp_all add: x_def)
  have r0: "0 \<le> round x" using b(1) by (simp add: round_def)
  have "round x \<le> round (100 :: real)" using b(2) by (rule round_mono)
  then have r1: "round x \<le> 100" by simp
  have f0: "0 \<le> floor x" using b(1) by simp
  have "floor x \<le> floor (100 :: real)" using b(2) by (rule floor_mono)
  then have f1: "floor x \<le> 100" by simp
  have s: "completenessScore hints payload = round x"
    using r0 r1 by (simp add: completenessScore_def x_def)
  have fl: "completenessScoreFloor hints payload = floor x"
    using f0 f1 by (simp add: completenessScoreFloor_def x_def)
  have fr: "floor x \<le> round x" "round x \<le> floor x + 1"
    unfolding round_def by linarith+
  have ex: "hints = pre @ (field, critical) # post \<and> \<not> present payload field
        \<and> list_all (\<lambda>(g, tier). present payload g) (pre @ post)
        \<and> totalWeight hints = 11 / 2 \<longrightarrow>
        completenessScore hints payload = 64
        \<and> completenessScoreFloor hints payload = 63
        \<and> sourceReliability (completenessScore hints payload)
             (missingFields hints payload) highSeverityIssue = Low
        \<and> sourceReliability (completenessScoreFloor hints payload)
             (missingFields hints payload) highSeverityIssue = Low"
  proof
    assume a: "hints = pre @ (field, critical) # post \<and> \<not> present payload field
        \<and> list_all (\<lambda>(g, tier). present payload g) (pre @ post)
        \<and> totalWeight hints = 11 / 2"
    have q: "x = 700 / 11"
      unfolding x_def using a percent_one_critical_missing by blast
    have "round (700 / 11 :: real) = 64" by (simp add: round_def)
    then have s64: "completenessScore hints payload = 64" using s q by simp
    have "floor (700 / 11 :: real) = 63" by simp
    then have f63: "completenessScoreFloor hints payload = 63" using fl q by simp
    show "completenessScore hints payload = 64
        \<and> completenessScoreFloor hints payload = 63
        \<and> sourceReliability (completenessScore hints payload)
             (missingFields hints payload) highSeverityIssue = Low
        \<and> sourceReliability (completenessScoreFloor hints payload)
             (missingFields hints payload) highSeverityIssue = Low"
      by (simp add: s64 f63 sourceReliability_def)
  qed
  show ?thesis using r0 r1 s fl fr ex x_def by simp
qed

theorem completenessScore_weighted_ratio_witness:
  "totalWeight quoteHints = 11 / 2
   \<and> \<not> present quoteWithoutPrice ''price''
   \<and> completenessScore quoteHints quoteWithoutPrice = 64
   \<and> completenessScoreFloor quoteHints quoteWithoutPrice = 63
   \<and> sourceReliability (completenessScore quoteHints quoteWithoutPrice)
        (missingFields quoteHints quoteWithoutPrice) False = Low
   \<and> sourceReliability (completenessScoreFloor quoteHints quoteWithoutPrice)
        (missingFields quoteHints quoteWithoutPrice) False = Low"
proof -
  have p: "quoteHints = [] @ (''price'', critical)
      # [(''volume'', important), (''open'', standard), (''previousClose'', standard)]"
    by (simp add: quoteHints_def)
  have m: "\<not> present quoteWithoutPrice ''price''"
    by (simp add: present_def quoteWithoutPrice_def)
  have r: "list_all (\<lambda>(g, tier). present quoteWithoutPrice g)
      ([] @ [(''volume'', important), (''open'', standard), (''previousClose'', standard)])"
    by (simp add: present_def quoteWithoutPrice_def)
  have t: "totalWeight quoteHints = 11 / 2" by (simp add: totalWeight_def quoteHints_def)
  show ?thesis
    using completenessScore_weighted_ratio[where hints = quoteHints
        and payload = quoteWithoutPrice and pre = "[]" and field = "''price''"
        and post = "[(''volume'', important), (''open'', standard), (''previousClose'', standard)]"
        and highSeverityIssue = False] p m r t
    by blast
qed

text \<open>
  The claim as stated cannot hold: it defines the score as rounded to the nearest
  integer and gives 63 for a share of 3.5 / 5.5 * 100 = 63.63..., whose nearest integer
  is 64; 63 is that share rounded down, which is not its nearest integer.
\<close>

theorem completenessScore_example_counterexample:
  "totalWeight quoteHints = 11 / 2
   \<and> presentWeight quoteHints quoteWithoutPrice = 11 / 2 - 2
   \<and> completenessScore quoteHints quoteWithoutPrice = 64
   \<and> completenessScore quoteHints quoteWithoutPrice \<noteq> 63
   \<and> completenessScoreFloor quoteHints quoteWithoutPrice = 63
   \<and> completenessScoreFloor quoteHints quoteWithoutPrice
        \<noteq> round (completenessPercent quoteHints quoteWithoutPrice)"
  by (simp add: totalWeight_def presentWeight_def completenessScore_def completenessScoreFloor_def
      completenessPercent_def quoteHints_def quoteWithoutPrice_def present_def round_def)

section \<open>Properties of the retry executor\<close>

text \<open>
  Claim C4, as amended. For every retry attempt \<open>n\<close> (counted from 1) the delay equals
  \<open>min(baseDelay * 2^(n-1) * (1 + r), maxDelay)\<close> for some \<open>r\<close> in \<open>[0, jitterFactor]\<close>, so
  for a base delay that is not negative it lies between the capped delay without jitter
  and the capped delay with full jitter; in particular, with \<open>baseDelay = 1000\<close>,
  \<open>jitterFactor = 0.1\<close> and \<open>maxDelay \<ge> 2000\<close>, the delay before attempt 2 lies in
  \<open>[2000, 2200]\<close> milliseconds; and no delay of any attempt exceeds \<open>maxDelay\<close>.
\<close>

theorem retryDelay_bounds:
  assumes "1 \<le> n" and "0 \<le> jitter" and "jitter \<le> jitterFactor"
  shows "(\<exists>r. 0 \<le> r \<and> r \<le> jitterFactor
            \<and> retryDelay baseDelay maxDelay n jitter = min (baseDelay * 2 ^ (n - 1) * (1 + r)) maxDelay)
       \<and> retryDelay baseDelay maxDelay n jitter \<le> maxDelay
       \<and> (0 \<le> baseDelay \<longrightarrow>
            min (baseDelay * 2 ^ (n - 1)) maxDelay \<le> retryDelay baseDelay maxDelay n jitter
            \<and> retryDelay baseDelay maxDelay n jitter
                 \<le> min (baseDelay * 2 ^ (n - 1) * (1 + jitterFactor)) maxDelay)
       \<and> (jitterFactor = 1 / 10 \<and> 2000 \<le> maxDelay \<longrightarrow>
            2000 \<le> retryDelay 1000 maxDelay 2 jitter \<and> retryDelay 1000 maxDelay 2 jitter \<le> 2200)"
proof (intro conjI impI)
  show "\<exists>r. 0 \<le> r \<and> r \<le> jitterFactor
            \<and> retryDelay baseDelay maxDelay n jitter = min (baseDelay * 2 ^ (n - 1) * (1 + r)) maxDelay"
    using assms(2,3) by (auto simp: retryDelay_def)
next
  show "retryDelay baseDelay maxDelay n jitter \<le> maxDelay"
    by (simp add: retryDelay_def)
next
  assume b: "0 \<le> baseDelay"
  have p: "0 \<le> baseDelay * 2 ^ (n - 1)" using b by simp
  have "baseDelay * 2 ^ (n - 1) * 1 \<le> baseDelay * 2 ^ (n - 1) * (1 + jitter)"
    using p assms(2) by (intro mult_left_mono) auto
  then show "min (baseDelay * 2 ^ (n - 1)) maxDelay \<le> retryDelay baseDelay maxDelay n jitter"
    by (simp add: retryDelay_def min_def)
next
  assume b: "0 \<le> baseDelay"
  have p: "0 \<le> baseDelay * 2 ^ (n - 1)" using b by simp
  have "baseDelay * 2 ^ (n - 1) * (1 + jitter) \<le> baseDelay * 2 ^ (n - 1) * (1 + jitterFactor)"
    using p assms(3) by (intro mult_left_mono) auto
  then show "retryDelay baseDelay maxDelay n jitter
                 \<le> min (baseDelay * 2 ^ (n - 1) * (1 + jitterFactor)) maxDelay"
    by (simp add: retryDelay_def min_def)
next
  assume "jitterFactor = 1 / 10 \<and> 2000 \<le> maxDelay"
  then show "2000 \<le> retryDelay 1000 maxDelay 2 jitter"
    using assms(2) by (simp add: retryDelay_def)
next
  assume "jitterFactor = 1 / 10 \<and> 2000 \<le> maxDelay"
  then show "retryDelay 1000 maxDelay 2 jitter \<le> 2200"
    using assms(3) by (simp add: retryDelay_def min_def)
qed

theorem retryDelay_bounds_witness:
  "(1::nat) \<le> 2 \<and> (0::real) \<le> 1 / 20 \<and> (1::real) / 20 \<le> 1 / 10 \<and> (2000::real) \<le> 10000
   \<and> retryDelay 1000 10000 2 (1 / 20) \<le> 10000
   \<and> 2000 \<le> retryDelay 1000 10000 2 (1 / 20) \<and> retryDelay 1000 10000 2 (1 / 20) \<le> 2200
   \<and> retryDelay 1000 10000 2 (1 / 20) = 2100"
proof -
  have h: "(1::nat) \<le> 2" "(0::real) \<le> 1 / 20" "(1::real) / 20 \<le> 1 / 10" by simp_all
  have m: "(1::real) / 10 = 1 / 10 \<and> (2000::real) \<le> 10000" by simp
  have v: "retryDelay 1000 10000 2 (1 / 20) = 2100" by (simp add: retryDelay_def)
  show ?thesis
    using retryDelay_bounds[OF h, where baseDelay = 1000 and maxDelay = 10000] h m v
    by simp
qed

text \<open>
  Without the condition on \<open>maxDelay\<close> the interval fails: a cap below 2000 is itself the
  delay before attempt 2.
\<close>

theorem retryDelay_small_cap_counterexample:
  "retryDelay 1000 1500 2 (1 / 20) = 1500 \<and> retryDelay 1000 1500 2 (1 / 20) < 2000"
  by (simp add: retryDelay_def)

end
